theory Spec2Isabelle
  imports Main
begin

section \<open>The request queue of the Arena client\<close>

text \<open>
  The class \<^verbatim>\<open>RequestQueue\<close> of \<^verbatim>\<open>packages/client-arena/src/base.ts\<close>
  (lines 21 to 69) has two fields, an array of zero-argument asynchronous closures and
  a flag, and four methods: \<^verbatim>\<open>add\<close>, \<^verbatim>\<open>processQueue\<close>,
  \<^verbatim>\<open>exponentialBackoff\<close> and \<^verbatim>\<open>randomDelay\<close>.

  JavaScript runs one job at a time and an asynchronous function runs without
  interruption from one \<^verbatim>\<open>await\<close> to the next. The model therefore cuts each
  asynchronous method at its \<^verbatim>\<open>await\<close>s: every piece is a function on the state,
  a suspended call of \<^verbatim>\<open>processQueue\<close> is a value that records the
  \<^verbatim>\<open>await\<close> it is parked at, and the host (the caller submitting work, the
  operations settling, the timers firing) is a list of inputs that wake the pieces up.
\<close>

subsection \<open>Data\<close>

text \<open>The two fields of the class; \<open>'i\<close> is the type of the queued closures.\<close>

record 'i RequestQueue =
  queue :: "'i list"
  processing :: bool

text \<open>How the operation handed to \<^verbatim>\<open>add\<close> ends when it is awaited on line 29.\<close>

datatype ('v, 'e) outcome = Fulfilled 'v | Failed 'e

text \<open>How the queued closure ends when \<^verbatim>\<open>processQueue\<close> awaits it on line 48.\<close>

datatype 'e completion = Returned | Threw 'e

text \<open>The promise that \<^verbatim>\<open>add\<close> returns to its caller.\<close>

datatype ('v, 'e) promise = Pending | Resolved 'v | Rejected 'e

text \<open>
  The closure that \<^verbatim>\<open>add\<close> pushes (lines 27 to 34). It captures the caller's
  operation and the \<^verbatim>\<open>resolve\<close> and \<^verbatim>\<open>reject\<close> functions of the promise
  being returned; promises are numbered in the order of the calls of \<^verbatim>\<open>add\<close>.
\<close>

datatype 'r wrapper = Wrapper (promise_id: nat) (inner: 'r)

text \<open>
  A JavaScript number that is a whole number of milliseconds or has overflowed; no other
  value of the type arises as a delay here.
\<close>

datatype jsnumber = Finite nat | PosInfinity

text \<open>
  A value that \<^verbatim>\<open>Math.random()\<close> can return: a binary64 number that is at least
  0 and less than 1, written as \<open>significand / 2 ^ scale\<close>. Every such number has
  this form with a significand of at most 53 bits and a scale of at most 1074, and every
  such pair is one.
\<close>

datatype draw = Draw (significand: nat) (scale: nat)


text \<open>
  A call of \<^verbatim>\<open>processQueue\<close> that has not returned is parked at one of its three
  \<^verbatim>\<open>await\<close>s: line 48 (the closure just dequeued, held in the local
  \<^verbatim>\<open>request\<close>), line 52 (the timer set by \<^verbatim>\<open>exponentialBackoff\<close>, with
  its delay in milliseconds) or line 54 (the timer set by \<^verbatim>\<open>randomDelay\<close>).
\<close>

datatype 'i activation =
    AwaitRequest 'i
  | AwaitBackoff 'i jsnumber
  | AwaitRandomDelay nat

text \<open>What an observer sees, in the order it happens.\<close>

datatype ('i, 'v, 'e) obs =
    Call 'i
  | ConsoleError 'e
  | Backoff jsnumber
  | Pacing nat
  | Resolve nat 'v
  | Reject nat 'e

subsection \<open>The two delays\<close>

text \<open>
  Line 61: \<^verbatim>\<open>Math.pow(2, retryCount) * 1000\<close>, the delay handed to
  \<^verbatim>\<open>setTimeout\<close>, in binary64 arithmetic. The power is exact up to
  \<open>retryCount = 1023\<close> and infinite above. The exact product is
  \<open>125 * 2 ^ (retryCount + 3)\<close>, whose significand has seven bits: it is a binary64
  number when it is below \<open>2 ^ 1024\<close>, and otherwise the multiplication overflows
  to \<^verbatim>\<open>Infinity\<close>.
\<close>

definition exponentialBackoff :: "nat \<Rightarrow> jsnumber" where
  "exponentialBackoff retryCount =
     (if 2 ^ retryCount * 1000 < (2::nat) ^ 1024 then Finite (2 ^ retryCount * 1000)
      else PosInfinity)"

text \<open>
  The host's timer keeps its delay as a signed 32-bit number of milliseconds: a delay
  above \<open>2 ^ 31 - 1\<close>, or one that is not finite, is not waited as given.
\<close>

definition TIMEOUT_MAX :: nat where
  "TIMEOUT_MAX = 2 ^ 31 - 1"


text \<open>
  Binary64 multiplication returns the exact product rounded to 53 significant bits, to
  the nearest such number and to the one with an even significand on a tie. On a natural
  number \<open>n\<close> of \<open>b\<close> bits this keeps the top 53 bits, the \<open>b - 53\<close> bits
  below deciding the rounding.
\<close>

fun bit_length :: "nat \<Rightarrow> nat" where
  "bit_length n = (if n = 0 then 0 else Suc (bit_length (n div 2)))"

declare bit_length.simps [simp del]

definition round_to_53 :: "nat \<Rightarrow> nat" where
  "round_to_53 n =
     (let s = bit_length n - 53; q = n div 2 ^ s; r = n mod 2 ^ s
      in if 2 ^ s < 2 * r \<or> (2 * r = 2 ^ s \<and> odd q) then (q + 1) * 2 ^ s else q * 2 ^ s)"

text \<open>
  Line 66: \<^verbatim>\<open>Math.floor(Math.random() * 2000) + 1500\<close>. The draw of
  \<^verbatim>\<open>Math.random()\<close> is the argument; the host supplies it. The product of the
  draw \<open>m / 2 ^ e\<close> and 2000 is \<open>m * 2000 / 2 ^ e\<close> rounded to 53 significant
  bits, which is a rounding of the numerator: a numerator of more than 53 bits gives a
  product of at least \<open>2 ^ 53 / 2 ^ 1074\<close>, a normal number, and a shorter one gives
  a product that is exact. \<^verbatim>\<open>Math.floor\<close> and the addition of 1500 are exact.
\<close>

definition randomDelay :: "draw \<Rightarrow> nat" where
  "randomDelay rnd = round_to_53 (significand rnd * 2000) div 2 ^ scale rnd + 1500"

subsection \<open>The pieces of processQueue\<close>

text \<open>
  Each piece returns the fields, the \<^verbatim>\<open>await\<close> at which the call is parked next
  (\<open>None\<close> when the call returns) and what it did.

  Lines 45 to 48 and line 57: the loop test, then either \<^verbatim>\<open>shift\<close> and the call
  of the closure, or the end of the loop, which clears the flag.
\<close>

definition processQueue_loop ::
  "'i RequestQueue \<Rightarrow> 'i RequestQueue \<times> 'i activation option \<times> ('i, 'v, 'e) obs list" where
  "processQueue_loop q =
     (case queue q of
        [] \<Rightarrow> (q\<lparr>processing := False\<rparr>, None, [])
      | request # rest \<Rightarrow> (q\<lparr>queue := rest\<rparr>, Some (AwaitRequest request), [Call request]))"

text \<open>Lines 39 to 44: the guard, the flag, and the first turn of the loop.\<close>

definition processQueue ::
  "'i RequestQueue \<Rightarrow> 'i RequestQueue \<times> 'i activation option \<times> ('i, 'v, 'e) obs list" where
  "processQueue q =
     (if processing q \<or> length (queue q) = 0 then (q, None, [])
      else processQueue_loop (q\<lparr>processing := True\<rparr>))"

text \<open>
  Lines 48 to 54, entered when the awaited closure has ended. If it returned, the call
  goes on to \<^verbatim>\<open>randomDelay\<close> on line 54. If it threw, the \<^verbatim>\<open>catch\<close> block
  logs the error, puts \<^verbatim>\<open>request\<close> back with \<^verbatim>\<open>unshift\<close> and calls
  \<^verbatim>\<open>exponentialBackoff\<close> with the length the array has then.
\<close>

definition after_request ::
  "'e completion \<Rightarrow> 'i \<Rightarrow> draw \<Rightarrow> 'i RequestQueue \<Rightarrow>
     'i RequestQueue \<times> 'i activation option \<times> ('i, 'v, 'e) obs list" where
  "after_request c request rnd q =
     (case c of
        Returned \<Rightarrow> (q, Some (AwaitRandomDelay (randomDelay rnd)), [Pacing (randomDelay rnd)])
      | Threw error \<Rightarrow>
          (let q' = q\<lparr>queue := request # queue q\<rparr>;
               delay = exponentialBackoff (length (queue q'))
           in (q', Some (AwaitBackoff request delay), [ConsoleError error, Backoff delay])))"

text \<open>Line 52 to line 54: the backoff timer has fired; \<^verbatim>\<open>randomDelay\<close> is next.\<close>

definition after_backoff ::
  "draw \<Rightarrow> 'i RequestQueue \<Rightarrow>
     'i RequestQueue \<times> 'i activation option \<times> ('i, 'v, 'e) obs list" where
  "after_backoff rnd q =
     (q, Some (AwaitRandomDelay (randomDelay rnd)), [Pacing (randomDelay rnd)])"

text \<open>Line 54 back to line 45: the pacing timer has fired; the loop test is next.\<close>

definition after_randomDelay ::
  "'i RequestQueue \<Rightarrow> 'i RequestQueue \<times> 'i activation option \<times> ('i, 'v, 'e) obs list" where
  "after_randomDelay q = processQueue_loop q"

subsection \<open>The closure pushed by add\<close>

text \<open>
  \<^verbatim>\<open>resolve\<close> and \<^verbatim>\<open>reject\<close> settle a promise that is still pending and do
  nothing to a settled one.
\<close>

definition settle :: "nat \<Rightarrow> ('v, 'e) promise \<Rightarrow> ('v, 'e) promise list \<Rightarrow> ('v, 'e) promise list" where
  "settle p x ps = (if p < length ps \<and> ps ! p = Pending then ps[p := x] else ps)"

text \<open>
  Lines 28 to 33, entered when the caller's operation has ended: \<^verbatim>\<open>resolve(result)\<close>
  in the \<^verbatim>\<open>try\<close> block, \<^verbatim>\<open>reject(error)\<close> in the \<^verbatim>\<open>catch\<close> block. The
  result is the promise table, the way the closure itself ends, and what it did.
\<close>

definition wrapper ::
  "('v, 'e) outcome \<Rightarrow> nat \<Rightarrow> ('v, 'e) promise list \<Rightarrow>
     ('v, 'e) promise list \<times> 'e completion \<times> ('i, 'v, 'e) obs list" where
  "wrapper out p ps =
     (case out of
        Fulfilled result \<Rightarrow> (settle p (Resolved result) ps, Returned, [Resolve p result])
      | Failed error \<Rightarrow> (settle p (Rejected error) ps, Returned, [Reject p error]))"

subsection \<open>The queue object and its host\<close>

text \<open>
  The whole state: the object's fields, the calls of \<^verbatim>\<open>processQueue\<close> that have
  not returned, the promises handed out by \<^verbatim>\<open>add\<close> and the observations so far.
\<close>

record ('r, 'v, 'e) system =
  rq :: "'r wrapper RequestQueue"
  loops :: "'r wrapper activation list"
  promises :: "('v, 'e) promise list"
  trace :: "('r wrapper, 'v, 'e) obs list"

definition init :: "('r, 'v, 'e) system" where
  "init = \<lparr>rq = \<lparr>queue = [], processing = False\<rparr>, loops = [], promises = [], trace = []\<rparr>"

text \<open>
  Lines 25 to 37: a new pending promise, \<^verbatim>\<open>push\<close> of the closure, and the call of
  \<^verbatim>\<open>processQueue\<close>, which is not awaited: it runs up to its first \<^verbatim>\<open>await\<close>
  and, if it is parked there, joins the suspended calls.
\<close>

definition add :: "'r \<Rightarrow> ('r, 'v, 'e) system \<Rightarrow> ('r, 'v, 'e) system" where
  "add request s =
     (let p = length (promises s);
          q = (rq s)\<lparr>queue := queue (rq s) @ [Wrapper p request]\<rparr>;
          (q', a, os) = processQueue q
      in s\<lparr>rq := q',
           loops := loops s @ (case a of None \<Rightarrow> [] | Some a' \<Rightarrow> [a']),
           promises := promises s @ [Pending],
           trace := trace s @ os\<rparr>)"

text \<open>
  The host's inputs: a call of \<^verbatim>\<open>add\<close>; the operation awaited by the \<open>k\<close>-th
  suspended call settles (with the draw that \<^verbatim>\<open>randomDelay\<close> will make if it is
  reached); the timer awaited by the \<open>k\<close>-th suspended call fires (with the same).
  An operation that never settles is an input that never comes.

  When an operation settles, the closure of \<^verbatim>\<open>add\<close> resumes first and
  \<^verbatim>\<open>processQueue\<close> resumes one job later. A call of \<^verbatim>\<open>add\<close> that
  runs between the two finds the flag set and only appends to the array, which gives the
  same state as the same call after both; so the two resumptions are one input.
\<close>

datatype ('r, 'v, 'e) input =
    Submit 'r
  | Settles nat "('v, 'e) outcome" draw
  | Fires nat draw

definition park ::
  "nat \<Rightarrow> 'i activation option \<Rightarrow> 'i activation list \<Rightarrow> 'i activation list" where
  "park k a ls = (case a of None \<Rightarrow> take k ls @ drop (Suc k) ls | Some a' \<Rightarrow> ls[k := a'])"

definition settles :: "nat \<Rightarrow> ('v, 'e) outcome \<Rightarrow> draw \<Rightarrow> ('r, 'v, 'e) system \<Rightarrow> ('r, 'v, 'e) system" where
  "settles k out rnd s =
     (if k < length (loops s) then
        (case loops s ! k of
           AwaitRequest w \<Rightarrow>
             (let (ps, c, os1) = wrapper out (promise_id w) (promises s);
                  (q', a, os2) = after_request c w rnd (rq s)
              in s\<lparr>rq := q', loops := park k a (loops s), promises := ps,
                   trace := trace s @ os1 @ os2\<rparr>)
         | _ \<Rightarrow> s)
      else s)"

definition fires :: "nat \<Rightarrow> draw \<Rightarrow> ('r, 'v, 'e) system \<Rightarrow> ('r, 'v, 'e) system" where
  "fires k rnd s =
     (if k < length (loops s) then
        (case loops s ! k of
           AwaitRequest w \<Rightarrow> s
         | AwaitBackoff w d \<Rightarrow>
             (let (q', a, os) = after_backoff rnd (rq s)
              in s\<lparr>rq := q', loops := park k a (loops s), trace := trace s @ os\<rparr>)
         | AwaitRandomDelay d \<Rightarrow>
             (let (q', a, os) = after_randomDelay (rq s)
              in s\<lparr>rq := q', loops := park k a (loops s), trace := trace s @ os\<rparr>))
      else s)"

fun step :: "('r, 'v, 'e) input \<Rightarrow> ('r, 'v, 'e) system \<Rightarrow> ('r, 'v, 'e) system" where
  "step (Submit request) s = add request s"
| "step (Settles k out rnd) s = settles k out rnd s"
| "step (Fires k rnd) s = fires k rnd s"

fun exec :: "('r, 'v, 'e) system \<Rightarrow> ('r, 'v, 'e) input list \<Rightarrow> ('r, 'v, 'e) system" where
  "exec s [] = s"
| "exec s (i # ins) = exec (step i s) ins"

subsection \<open>Reading a run\<close>

text \<open>Promise numbers of the operations called, settled and resolved, oldest first.\<close>

fun call_of :: "('r wrapper, 'v, 'e) obs \<Rightarrow> nat list" where
  "call_of (Call w) = [promise_id w]"
| "call_of _ = []"

fun settlement_of :: "('i, 'v, 'e) obs \<Rightarrow> nat list" where
  "settlement_of (Resolve p v) = [p]"
| "settlement_of (Reject p e) = [p]"
| "settlement_of _ = []"

fun resolution_of :: "('i, 'v, 'e) obs \<Rightarrow> nat list" where
  "resolution_of (Resolve p v) = [p]"
| "resolution_of _ = []"

definition called :: "('r wrapper, 'v, 'e) obs list \<Rightarrow> nat list" where
  "called os = concat (map call_of os)"

definition settled :: "('i, 'v, 'e) obs list \<Rightarrow> nat list" where
  "settled os = concat (map settlement_of os)"

definition resolved :: "('i, 'v, 'e) obs list \<Rightarrow> nat list" where
  "resolved os = concat (map resolution_of os)"

text \<open>What only the \<^verbatim>\<open>catch\<close> block of \<^verbatim>\<open>processQueue\<close> does.\<close>

fun retry_of :: "('i, 'v, 'e) obs \<Rightarrow> bool" where
  "retry_of (ConsoleError e) = True"
| "retry_of (Backoff d) = True"
| "retry_of _ = False"

fun awaits_backoff :: "'i activation \<Rightarrow> bool" where
  "awaits_backoff (AwaitBackoff w d) = True"
| "awaits_backoff _ = False"

text \<open>The closures whose operation has been called and has not settled.\<close>

fun executing_of :: "'i activation \<Rightarrow> 'i list" where
  "executing_of (AwaitRequest w) = [w]"
| "executing_of _ = []"

definition executing :: "('r, 'v, 'e) system \<Rightarrow> 'r wrapper list" where
  "executing s = concat (map executing_of (loops s))"

text \<open>An input other than the failure of an operation.\<close>

fun no_failure :: "('r, 'v, 'e) input \<Rightarrow> bool" where
  "no_failure (Settles k (Failed e) rnd) = False"
| "no_failure _ = True"

text \<open>
  The host serving the first suspended call and submitting nothing: it delivers what
  that call is waiting for, the outcome of the operation or the timer, with an outcome
  and a draw of its choice.
\<close>

fun wake :: "('v, 'e) outcome \<times> draw \<Rightarrow> ('r, 'v, 'e) system \<Rightarrow> ('r, 'v, 'e) system" where
  "wake (out, rnd) s =
     (case loops s of
        AwaitRequest w # rest \<Rightarrow> step (Settles 0 out rnd) s
      | _ \<Rightarrow> step (Fires 0 rnd) s)"

fun drive ::
  "('r, 'v, 'e) system \<Rightarrow> (('v, 'e) outcome \<times> draw) list \<Rightarrow> ('r, 'v, 'e) system" where
  "drive s [] = s"
| "drive s (c # cs) = drive (wake c s) cs"

subsection \<open>The invariant of the reachable states\<close>

text \<open>
  Either no call of \<^verbatim>\<open>processQueue\<close> is suspended, the flag is clear and the array
  is empty; or exactly one is, the flag is set, and the call is not parked at the backoff.
\<close>

definition shape :: "('r, 'v, 'e) system \<Rightarrow> bool" where
  "shape s =
     (case loops s of
        [] \<Rightarrow> \<not> processing (rq s) \<and> queue (rq s) = []
      | [a] \<Rightarrow> processing (rq s) \<and> (case a of AwaitBackoff w d \<Rightarrow> False | _ \<Rightarrow> True)
      | _ \<Rightarrow> False)"

text \<open>
  The operations settled, then the one executing, then the ones queued, are the
  submissions in their order; the operations called are the first two groups.
\<close>

definition ordered :: "('r, 'v, 'e) system \<Rightarrow> bool" where
  "ordered s =
     (called (trace s) = settled (trace s) @ map promise_id (executing s) \<and>
      called (trace s) @ map promise_id (queue (rq s)) = [0..<length (promises s)])"

definition unsettled :: "('r, 'v, 'e) system \<Rightarrow> bool" where
  "unsettled s =
     list_all (\<lambda>w. promise_id w < length (promises s) \<and> promises s ! promise_id w = Pending)
       (executing s @ queue (rq s))"

definition invar :: "('r, 'v, 'e) system \<Rightarrow> bool" where
  "invar s = (shape s \<and> ordered s \<and> unsettled s \<and> \<not> list_ex retry_of (trace s))"

section \<open>Properties\<close>

subsection \<open>The pieces on the states that occur\<close>

lemma shape_cases:
  assumes "shape s"
  obtains (idle) "loops s = []" "\<not> processing (rq s)" "queue (rq s) = []"
  | (running) w where "loops s = [AwaitRequest w]" "processing (rq s)"
  | (pacing) d where "loops s = [AwaitRandomDelay d]" "processing (rq s)"
  using assms unfolding shape_def
  by (auto split: list.splits activation.splits)

lemma add_idle:
  assumes "loops s = []" "\<not> processing (rq s)" "queue (rq s) = []"
  shows "add r s = s\<lparr>rq := (rq s)\<lparr>processing := True, queue := []\<rparr>,
                      loops := [AwaitRequest (Wrapper (length (promises s)) r)],
                      promises := promises s @ [Pending],
                      trace := trace s @ [Call (Wrapper (length (promises s)) r)]\<rparr>"
  using assms by (simp add: add_def processQueue_def processQueue_loop_def Let_def)

lemma add_busy:
  assumes "processing (rq s)"
  shows "add r s = s\<lparr>rq := (rq s)\<lparr>queue := queue (rq s) @ [Wrapper (length (promises s)) r]\<rparr>,
                      promises := promises s @ [Pending]\<rparr>"
  using assms by (simp add: add_def processQueue_def Let_def)

lemma settles_running:
  assumes "loops s = [AwaitRequest w]"
  shows "settles 0 out rnd s =
           s\<lparr>loops := [AwaitRandomDelay (randomDelay rnd)],
             promises := settle (promise_id w)
                           (case out of Fulfilled v \<Rightarrow> Resolved v | Failed e \<Rightarrow> Rejected e) (promises s),
             trace := trace s @ [case out of Fulfilled v \<Rightarrow> Resolve (promise_id w) v
                                          | Failed e \<Rightarrow> Reject (promise_id w) e,
                                 Pacing (randomDelay rnd)]\<rparr>"
  using assms
  by (cases out) (simp_all add: settles_def wrapper_def after_request_def park_def)

lemma fires_pacing_empty:
  assumes "loops s = [AwaitRandomDelay d]" "queue (rq s) = []"
  shows "fires 0 rnd s = s\<lparr>rq := (rq s)\<lparr>processing := False\<rparr>, loops := []\<rparr>"
  using assms by (simp add: fires_def after_randomDelay_def processQueue_loop_def park_def)

lemma fires_pacing_next:
  assumes "loops s = [AwaitRandomDelay d]" "queue (rq s) = w # rest"
  shows "fires 0 rnd s = s\<lparr>rq := (rq s)\<lparr>queue := rest\<rparr>, loops := [AwaitRequest w],
                           trace := trace s @ [Call w]\<rparr>"
  using assms by (simp add: fires_def after_randomDelay_def processQueue_loop_def park_def)

lemma settles_other:
  assumes "loops s = [] \<or> (\<exists>d. loops s = [AwaitRandomDelay d]) \<or> (loops s \<noteq> [] \<and> tl (loops s) = [] \<and> k \<noteq> 0)"
  shows "settles k out rnd s = s"
  using assms by (cases "loops s") (auto simp: settles_def)

lemma fires_other:
  assumes "loops s = [] \<or> (\<exists>w. loops s = [AwaitRequest w]) \<or> (loops s \<noteq> [] \<and> tl (loops s) = [] \<and> k \<noteq> 0)"
  shows "fires k rnd s = s"
  using assms by (cases "loops s") (auto simp: fires_def)

lemma invar_init: "invar init"
  by (simp add: invar_def shape_def ordered_def unsettled_def init_def called_def settled_def executing_def)

lemma invar_add: "invar s \<Longrightarrow> invar (add r s)"
  unfolding invar_def
  apply (elim conjE)
  apply (erule shape_cases)
  apply (simp_all add: add_idle add_busy)
  apply (auto simp: shape_def ordered_def unsettled_def called_def settled_def executing_def nth_append list_all_iff)
  done

lemma invar_settles: "invar s \<Longrightarrow> invar (settles k out rnd s)"
proof -
  assume I: "invar s"
  then have "shape s" by (simp add: invar_def)
  then show ?thesis
  proof (cases rule: shape_cases)
    case idle
    then show ?thesis using I by (simp add: settles_other)
  next
    case (pacing d)
    then show ?thesis using I by (simp add: settles_other)
  next
    case (running w)
    show ?thesis
    proof (cases k)
      case (Suc k')
      then show ?thesis using I running by (simp add: settles_other)
    next
      case 0
      have e: "settled (trace s) @ promise_id w # map promise_id (queue (rq s)) =
                 [0..<length (promises s)]"
        using I running by (auto simp: invar_def ordered_def executing_def)
      have d: "distinct (settled (trace s) @ promise_id w # map promise_id (queue (rq s)))"
        by (simp only: e distinct_upt)
      show ?thesis using I running 0 d
        by (cases out)
           (auto simp: invar_def settles_running shape_def ordered_def unsettled_def called_def
              settled_def executing_def list_all_iff settle_def nth_list_update)
    qed
  qed
qed

lemma invar_fires: "invar s \<Longrightarrow> invar (fires k rnd s)"
proof -
  assume I: "invar s"
  then have "shape s" by (simp add: invar_def)
  then show ?thesis
  proof (cases rule: shape_cases)
    case idle
    then show ?thesis using I by (simp add: fires_other)
  next
    case (running w)
    then show ?thesis using I by (simp add: fires_other)
  next
    case (pacing d)
    show ?thesis
    proof (cases k)
      case (Suc k')
      then show ?thesis using I pacing by (simp add: fires_other)
    next
      case 0
      show ?thesis
      proof (cases "queue (rq s)")
        case Nil
        then show ?thesis using I pacing 0
          by (auto simp: invar_def fires_pacing_empty shape_def ordered_def unsettled_def
                executing_def)
      next
        case (Cons w rest)
        then show ?thesis using I pacing 0
          by (auto simp: invar_def fires_pacing_next shape_def ordered_def unsettled_def
                called_def settled_def executing_def)
      qed
    qed
  qed
qed

lemma invar_step: "invar s \<Longrightarrow> invar (step i s)"
  by (cases i) (simp_all add: invar_add invar_settles invar_fires)

lemma invar_exec: "invar s \<Longrightarrow> invar (exec s ins)"
  by (induction ins arbitrary: s) (simp_all add: invar_step)

lemma invar_reachable: "invar (exec init ins)"
  by (simp add: invar_exec invar_init)

lemma trace_add: "\<exists>os. trace (add r s) = trace s @ os"
  by (simp add: add_def Let_def split: prod.splits)

lemma trace_settles: "\<exists>os. trace (settles k out rnd s) = trace s @ os"
  by (simp add: settles_def Let_def split: prod.splits activation.splits)

lemma trace_fires: "\<exists>os. trace (fires k rnd s) = trace s @ os"
  by (simp add: fires_def Let_def split: prod.splits activation.splits)

lemma trace_step: "\<exists>os. trace (step i s) = trace s @ os"
  by (cases i) (simp_all add: trace_add trace_settles trace_fires)

lemma trace_exec: "\<exists>os. trace (exec s ins) = trace s @ os"
proof (induction ins arbitrary: s)
  case Nil
  show ?case by simp
next
  case (Cons i ins)
  obtain os1 where 1: "trace (step i s) = trace s @ os1"
    using trace_step by blast
  obtain os2 where 2: "trace (exec (step i s) ins) = trace (step i s) @ os2"
    using Cons.IH by blast
  show ?case using 1 2 by simp
qed







lemma running_pending:
  assumes "invar s" "loops s = [AwaitRequest w]"
  shows "promise_id w < length (promises s) \<and> promises s ! promise_id w = Pending"
  using assms by (simp add: invar_def unsettled_def executing_def)

subsection \<open>Settled operations, delays, order, progress\<close>

lemma settled_not_pending:
  assumes "invar s" "p \<in> set (settled (trace s))"
  shows "\<not> list_ex (\<lambda>w. promise_id w = p) (executing s @ queue (rq s))"
proof -
  have "settled (trace s) @ map promise_id (executing s) @ map promise_id (queue (rq s)) =
          [0..<length (promises s)]"
    using assms(1) by (auto simp: invar_def ordered_def)
  then have "distinct (settled (trace s) @ map promise_id (executing s @ queue (rq s)))"
    by (metis distinct_upt map_append)
  with assms(2) show ?thesis
    by (auto simp: list_ex_iff)
qed

text \<open>Rounding to 53 bits; the pacing delay; the overflow of the backoff delay.\<close>

lemma bit_length_upper: "n < 2 ^ bit_length n"
proof (induction n rule: bit_length.induct)
  case (1 n)
  show ?case
  proof (cases "n = 0")
    case True
    then show ?thesis by (simp add: bit_length.simps)
  next
    case False
    then have "n div 2 < 2 ^ bit_length (n div 2)" using 1 by simp
    then have "n < 2 * 2 ^ bit_length (n div 2)" by linarith
    then show ?thesis using False by (simp add: bit_length.simps [of n])
  qed
qed














lemma resolved_settled_step:
  assumes "no_failure i" "resolved (trace s) = settled (trace s)"
  shows "resolved (trace (step i s)) = settled (trace (step i s))"
proof (cases i)
  case (Submit r)
  then show ?thesis using assms(2)
    by (simp add: add_def processQueue_def processQueue_loop_def Let_def resolved_def settled_def
          split: list.splits)
next
  case (Settles k out rnd)
  then obtain v where "out = Fulfilled v" using assms(1) by (cases out) simp_all
  then show ?thesis using Settles assms(2)
    by (simp add: settles_def wrapper_def after_request_def Let_def resolved_def settled_def
          split: activation.splits)
next
  case (Fires k rnd)
  then show ?thesis using assms(2)
    by (simp add: fires_def after_backoff_def after_randomDelay_def processQueue_loop_def Let_def
          resolved_def settled_def split: activation.splits list.splits)
qed

lemma resolved_settled_exec:
  "list_all no_failure ins \<Longrightarrow> resolved (trace s) = settled (trace s) \<Longrightarrow>
   resolved (trace (exec s ins)) = settled (trace (exec s ins))"
  by (induction ins arbitrary: s) (simp_all add: resolved_settled_step)

lemma prefix_upt:
  assumes "xs @ ys = [0..<n]"
  shows "xs = [0..<length xs]"
proof -
  have "xs = take (length xs) (xs @ ys)" by simp
  also have "\<dots> = take (length xs) [0..<n]" by (simp only: assms)
  also have "\<dots> = [0..<min (length xs) n]" by (simp add: take_upt min_def)
  finally have "xs = [0..<min (length xs) n]" .
  moreover have "length xs \<le> n" using arg_cong [OF assms, of length] by simp
  ultimately show ?thesis by (simp add: min_def)
qed

lemma drive_pacing:
  "loops s = [AwaitRandomDelay d] \<Longrightarrow> queue (rq s) = q @ [x] \<Longrightarrow> length cs = 2 * length q + 1 \<Longrightarrow>
   loops (drive s cs) = [AwaitRequest x]"
proof (induction q arbitrary: s cs d)
  case Nil
  then obtain out rnd where "cs = [(out, rnd)]"
    by (cases cs) auto
  then show ?case using Nil by (simp add: fires_pacing_next)
next
  case (Cons y q)
  then obtain o1 r1 o2 r2 cs' where cs: "cs = (o1, r1) # (o2, r2) # cs'"
    by (cases cs; cases "tl cs") auto
  let ?s1 = "fires 0 r1 s"
  have 1: "loops ?s1 = [AwaitRequest y] \<and> queue (rq ?s1) = q @ [x]"
    using Cons.prems by (simp add: fires_pacing_next)
  let ?s2 = "settles 0 o2 r2 ?s1"
  have 2: "loops ?s2 = [AwaitRandomDelay (randomDelay r2)] \<and> queue (rq ?s2) = q @ [x]"
    using 1 by (simp add: settles_running)
  have "loops (drive ?s2 cs') = [AwaitRequest x]"
    using 2 Cons.prems(3) cs by (intro Cons.IH [of ?s2 "randomDelay r2" cs']) simp_all
  then show ?case using cs Cons.prems(1) 1 by simp
qed

lemma drive_running:
  assumes "loops s = [AwaitRequest w]" "queue (rq s) = q @ [x]" "length cs = 2 * length q + 2"
  shows "loops (drive s cs) = [AwaitRequest x]"
proof -
  obtain out rnd cs' where cs: "cs = (out, rnd) # cs'"
    using assms(3) by (cases cs) auto
  let ?s1 = "settles 0 out rnd s"
  have 1: "loops ?s1 = [AwaitRandomDelay (randomDelay rnd)] \<and> queue (rq ?s1) = q @ [x]"
    using assms by (simp add: settles_running)
  have "loops (drive ?s1 cs') = [AwaitRequest x]"
    using 1 assms(3) cs by (intro drive_pacing [of ?s1 "randomDelay rnd" q x cs']) simp_all
  then show ?thesis using cs assms(1) by simp
qed

text \<open>The equations that evaluate a concrete run.\<close>

lemmas run_simps =
  init_def add_def processQueue_def processQueue_loop_def settles_def fires_def wrapper_def
  after_request_def after_backoff_def after_randomDelay_def randomDelay_def
  exponentialBackoff_def park_def settle_def Let_def called_def settled_def resolved_def
  executing_def
  round_to_53_def bit_length.simps TIMEOUT_MAX_def

section \<open>The claims\<close>

subsection \<open>C1: what the promise returned by add does\<close>




subsection \<open>C2: a failing operation is not retried\<close>

text \<open>
  Claim C2 says that a work item whose execution fails is put back at the head of the
  queue and attempted again until it succeeds. On the run below an operation is submitted
  to the idle queue and fails. The closure of \<^verbatim>\<open>add\<close> catches the error, so
  \<^verbatim>\<open>processQueue\<close> sees it return and goes to the pacing delay; when the timer
  fires the array is empty and the loop ends. The operation was called once, nothing was
  put back, and its promise is rejected.
\<close>

theorem failed_operation_is_dropped:
  "queue (rq (exec (init :: (string, nat, string) system)
      [Submit ''op'', Settles 0 (Failed ''boom'') (Draw 1 1), Fires 0 (Draw 1 1)])) = [] \<and>
   loops (exec (init :: (string, nat, string) system)
      [Submit ''op'', Settles 0 (Failed ''boom'') (Draw 1 1), Fires 0 (Draw 1 1)]) = [] \<and>
   \<not> processing (rq (exec (init :: (string, nat, string) system)
      [Submit ''op'', Settles 0 (Failed ''boom'') (Draw 1 1), Fires 0 (Draw 1 1)])) \<and>
   trace (exec (init :: (string, nat, string) system)
      [Submit ''op'', Settles 0 (Failed ''boom'') (Draw 1 1), Fires 0 (Draw 1 1)]) =
     [Call (Wrapper 0 ''op''), Reject 0 ''boom'', Pacing 2500]"
  by (simp add: run_simps)

subsection \<open>C3: the closure of add never throws\<close>

text \<open>
  Claim C3. Whatever the outcome of the operation, the closure pushed by \<^verbatim>\<open>add\<close>
  returns and does not throw. Hence on every run the \<^verbatim>\<open>catch\<close> block of
  \<^verbatim>\<open>processQueue\<close> is never entered: no error is logged there, no backoff delay is
  computed, and no call of \<^verbatim>\<open>processQueue\<close> is ever parked at the backoff timer.
\<close>

theorem wrapper_never_throws:
  "fst (snd (wrapper out p ps)) = Returned \<and>
   \<not> list_ex retry_of (trace (exec init ins)) \<and>
   \<not> list_ex awaits_backoff (loops (exec init ins))"
proof -
  have I: "invar (exec init ins)" by (rule invar_reachable)
  then have "shape (exec init ins)" by (simp add: invar_def)
  then have "\<not> list_ex awaits_backoff (loops (exec init ins))"
    by (cases rule: shape_cases) simp_all
  moreover have "fst (snd (wrapper out p ps)) = Returned"
    by (cases out) (simp_all add: wrapper_def)
  ultimately show ?thesis using I by (simp add: invar_def)
qed

text \<open>C3 on a run with a failing operation.\<close>

theorem wrapper_never_throws_witness:
  "fst (snd (wrapper (Failed ''boom'' :: (nat, string) outcome) 0 [Pending] ::
      (nat, string) promise list \<times> string completion \<times> (string wrapper, nat, string) obs list)) =
     Returned \<and>
   \<not> list_ex retry_of (trace (exec (init :: (string, nat, string) system)
      [Submit ''op'', Settles 0 (Failed ''boom'') (Draw 1 1), Fires 0 (Draw 1 1)])) \<and>
   \<not> list_ex awaits_backoff (loops (exec (init :: (string, nat, string) system)
      [Submit ''op'', Settles 0 (Failed ''boom'') (Draw 1 1)]))"
  using wrapper_never_throws
    [where out = "Failed ''boom'' :: (nat, string) outcome" and p = 0 and ps = "[Pending]"
      and ins = "[Submit ''op'', Settles 0 (Failed ''boom'') (Draw 1 1), Fires 0 (Draw 1 1)]
                 :: (string, nat, string) input list"]
    wrapper_never_throws
    [where out = "Failed ''boom'' :: (nat, string) outcome" and p = 0 and ps = "[Pending]"
      and ins = "[Submit ''op'', Settles 0 (Failed ''boom'') (Draw 1 1)]
                 :: (string, nat, string) input list"]
  by (simp add: run_simps)

subsection \<open>C4: the first failure rejects and removes\<close>

text \<open>
  Claim C4. Take a reachable state in which a submitted operation is executing; it has
  been called exactly once. If it fails with an error, then at once its promise is
  rejected with that error, the array is what it was (the closure is not put back), the
  loop is parked at the pacing timer and has done nothing but reject and start that timer
  (no backoff); the closure is never again queued or executing, whatever happens later;
  and when the pacing timer fires the loop calls the next queued closure, or ends if
  there is none.
\<close>

theorem first_failure_rejects_and_removes:
  assumes "s = exec init ins" "loops s = [AwaitRequest w]"
  shows "count_list (called (trace s)) (promise_id w) = 1 \<and>
         promises (settles 0 (Failed e) rnd s) ! promise_id w = Rejected e \<and>
         queue (rq (settles 0 (Failed e) rnd s)) = queue (rq s) \<and>
         loops (settles 0 (Failed e) rnd s) = [AwaitRandomDelay (randomDelay rnd)] \<and>
         trace (settles 0 (Failed e) rnd s) =
           trace s @ [Reject (promise_id w) e, Pacing (randomDelay rnd)] \<and>
         \<not> list_ex (\<lambda>w'. promise_id w' = promise_id w)
             (executing (exec (settles 0 (Failed e) rnd s) ins') @
              queue (rq (exec (settles 0 (Failed e) rnd s) ins'))) \<and>
         (case queue (rq s) of
            [] \<Rightarrow> loops (fires 0 rnd' (settles 0 (Failed e) rnd s)) = []
          | w' # rest \<Rightarrow>
              loops (fires 0 rnd' (settles 0 (Failed e) rnd s)) = [AwaitRequest w'] \<and>
              trace (fires 0 rnd' (settles 0 (Failed e) rnd s)) =
                trace s @ [Reject (promise_id w) e, Pacing (randomDelay rnd), Call w'])"
proof -
  let ?s' = "settles 0 (Failed e) rnd s"
  have I: "invar s" using assms(1) by (simp add: invar_reachable)
  have P: "promise_id w < length (promises s) \<and> promises s ! promise_id w = Pending"
    using I assms(2) by (rule running_pending)
  have eq: "called (trace s) @ map promise_id (queue (rq s)) = [0..<length (promises s)]"
    and c: "called (trace s) = settled (trace s) @ [promise_id w]"
    using I assms(2) by (auto simp: invar_def ordered_def executing_def)
  have "distinct (called (trace s) @ map promise_id (queue (rq s)))"
    by (simp only: eq distinct_upt)
  then have "promise_id w \<notin> set (settled (trace s))" by (simp add: c)
  then have once: "count_list (called (trace s)) (promise_id w) = 1"
    by (simp add: c)
  have S: "?s' = s\<lparr>loops := [AwaitRandomDelay (randomDelay rnd)],
                    promises := settle (promise_id w) (Rejected e) (promises s),
                    trace := trace s @ [Reject (promise_id w) e, Pacing (randomDelay rnd)]\<rparr>"
    using assms(2) by (simp add: settles_running)
  have I': "invar (exec ?s' ins')"
    using I by (simp add: invar_settles invar_exec)
  obtain os where "trace (exec ?s' ins') = trace ?s' @ os"
    using trace_exec by blast
  then have "promise_id w \<in> set (settled (trace (exec ?s' ins')))"
    by (simp add: S settled_def)
  with I' have gone: "\<not> list_ex (\<lambda>w'. promise_id w' = promise_id w)
             (executing (exec ?s' ins') @ queue (rq (exec ?s' ins')))"
    by (rule settled_not_pending)
  have nxt: "(case queue (rq s) of
            [] \<Rightarrow> loops (fires 0 rnd' ?s') = []
          | w' # rest \<Rightarrow>
              loops (fires 0 rnd' ?s') = [AwaitRequest w'] \<and>
              trace (fires 0 rnd' ?s') =
                trace s @ [Reject (promise_id w) e, Pacing (randomDelay rnd), Call w'])"
    by (cases "queue (rq s)") (simp_all add: S fires_pacing_empty fires_pacing_next)
  show ?thesis
    using once gone nxt P by (simp add: S settle_def)
qed

text \<open>C4 on a run: two submissions, the first fails, the second is called next.\<close>

theorem first_failure_rejects_and_removes_witness:
  "loops (exec (init :: (string, nat, string) system) [Submit ''a'', Submit ''b'']) =
     [AwaitRequest (Wrapper 0 ''a'')] \<and>
   promises (settles 0 (Failed ''boom'') (Draw 1 1)
      (exec (init :: (string, nat, string) system) [Submit ''a'', Submit ''b''])) ! 0 =
     Rejected ''boom'' \<and>
   queue (rq (settles 0 (Failed ''boom'') (Draw 1 1)
      (exec (init :: (string, nat, string) system) [Submit ''a'', Submit ''b'']))) =
     [Wrapper 1 ''b''] \<and>
   trace (fires 0 (Draw 0 0) (settles 0 (Failed ''boom'') (Draw 1 1)
      (exec (init :: (string, nat, string) system) [Submit ''a'', Submit ''b'']))) =
     [Call (Wrapper 0 ''a''), Reject 0 ''boom'', Pacing 2500, Call (Wrapper 1 ''b'')]"
  using first_failure_rejects_and_removes
    [where s = "exec (init :: (string, nat, string) system) [Submit ''a'', Submit ''b'']"
      and ins = "[Submit ''a'', Submit ''b'']" and w = "Wrapper 0 ''a''" and e = "''boom''"
      and rnd = "Draw 1 1" and rnd' = "Draw 0 0" and ins' = "[]"]
  by (simp add: run_simps)

subsection \<open>C5: one loop, one operation at a time\<close>

text \<open>
  Claim C5. In every reachable state at most one call of \<^verbatim>\<open>processQueue\<close> is
  suspended and at most one operation is executing. If the flag is set when
  \<^verbatim>\<open>add\<close> is called, the call starts no second loop and appends its closure at the
  tail; and the loop that is active reaches it: once the host has delivered, submitting
  nothing more, what the loop waits for (two inputs for the operation executing, if any,
  and for each closure ahead in the array, one less for the last), with outcomes and
  draws of any kind, that same loop is executing the new operation.
\<close>

theorem single_drain_loop:
  assumes "s = exec init ins"
  shows "length (loops s) \<le> 1 \<and> length (executing s) \<le> 1 \<and>
         (processing (rq s) \<longrightarrow>
            loops (add r s) = loops s \<and>
            queue (rq (add r s)) = queue (rq s) @ [Wrapper (length (promises s)) r] \<and>
            (length cs = 2 * length (queue (rq s)) + 1 + length (executing s) \<longrightarrow>
               loops (drive (add r s) cs) = [AwaitRequest (Wrapper (length (promises s)) r)]))"
proof -
  have "shape s" using assms invar_reachable [of ins] by (simp add: invar_def)
  then show ?thesis
  proof (cases rule: shape_cases)
    case idle
    then show ?thesis by (simp add: executing_def)
  next
    case (running w)
    then show ?thesis
      by (auto simp: executing_def add_busy intro: drive_running)
  next
    case (pacing d)
    then show ?thesis
      by (auto simp: executing_def add_busy intro: drive_pacing)
  qed
qed

text \<open>
  C5 on a run: two submissions, then a third while the first is executing. Four inputs
  later (the first succeeds, the second fails) the loop is executing the third.
\<close>

theorem single_drain_loop_witness:
  "processing (rq (exec (init :: (string, nat, string) system) [Submit ''a'', Submit ''b''])) \<and>
   loops (add ''c'' (exec (init :: (string, nat, string) system) [Submit ''a'', Submit ''b''])) =
     [AwaitRequest (Wrapper 0 ''a'')] \<and>
   queue (rq (add ''c'' (exec (init :: (string, nat, string) system) [Submit ''a'', Submit ''b'']))) =
     [Wrapper 1 ''b'', Wrapper 2 ''c''] \<and>
   loops (drive (add ''c'' (exec (init :: (string, nat, string) system) [Submit ''a'', Submit ''b'']))
      [(Fulfilled 7, Draw 0 0), (Fulfilled 7, Draw 0 0), (Failed ''boom'', Draw 1 1), (Fulfilled 7, Draw 0 0)]) =
     [AwaitRequest (Wrapper 2 ''c'')]"
  using single_drain_loop
    [where s = "exec (init :: (string, nat, string) system) [Submit ''a'', Submit ''b'']"
      and ins = "[Submit ''a'', Submit ''b'']" and r = "''c''"
      and cs = "[(Fulfilled 7, Draw 0 0), (Fulfilled 7, Draw 0 0), (Failed ''boom'', Draw 1 1), (Fulfilled 7, Draw 0 0)]"]
  by (simp add: run_simps)

subsection \<open>C6: first in, first out\<close>

text \<open>
  Claim C6. On every run in which no operation fails, the operations are called in the
  order of their submission and their promises resolve in the order of their submission:
  the \<open>k\<close>-th promise to resolve is the one returned by the \<open>k\<close>-th call of
  \<^verbatim>\<open>add\<close>. When the loop has ended, every promise handed out has resolved.
\<close>

theorem fifo_resolution_order:
  assumes "list_all no_failure ins"
  shows "called (trace (exec init ins)) = [0..<length (called (trace (exec init ins)))] \<and>
         resolved (trace (exec init ins)) = [0..<length (resolved (trace (exec init ins)))] \<and>
         (loops (exec init ins) = [] \<longrightarrow>
            resolved (trace (exec init ins)) = [0..<length (promises (exec init ins))])"
proof -
  let ?s = "exec init ins"
  have I: "invar ?s" by (rule invar_reachable)
  have c: "called (trace ?s) @ map promise_id (queue (rq ?s)) = [0..<length (promises ?s)]"
    and e: "called (trace ?s) = settled (trace ?s) @ map promise_id (executing ?s)"
    using I by (auto simp: invar_def ordered_def)
  have r: "resolved (trace ?s) = settled (trace ?s)"
    using assms by (rule resolved_settled_exec) (simp add: init_def resolved_def settled_def)
  have 1: "called (trace ?s) = [0..<length (called (trace ?s))]"
    using c by (rule prefix_upt)
  have "settled (trace ?s) @ (map promise_id (executing ?s) @ map promise_id (queue (rq ?s))) =
          [0..<length (promises ?s)]"
    using c e by simp
  then have 2: "settled (trace ?s) = [0..<length (settled (trace ?s))]"
    by (rule prefix_upt)
  have 3: "loops ?s = [] \<longrightarrow> resolved (trace ?s) = [0..<length (promises ?s)]"
  proof
    assume l: "loops ?s = []"
    then have "queue (rq ?s) = []" using I by (simp add: invar_def shape_def)
    with l c e r show "resolved (trace ?s) = [0..<length (promises ?s)]"
      by (simp add: executing_def)
  qed
  show ?thesis using 1 2 3 r by simp
qed

text \<open>
  C6 on a run: three submissions, the third while the first is being paced; all
  succeed; the promises resolve in the order 0, 1, 2.
\<close>

theorem fifo_resolution_order_witness:
  "list_all no_failure
     ([Submit ''a'', Submit ''b'', Settles 0 (Fulfilled 1) (Draw 0 0), Submit ''c'', Fires 0 (Draw 0 0),
       Settles 0 (Fulfilled 2) (Draw 0 0), Fires 0 (Draw 0 0), Settles 0 (Fulfilled 3) (Draw 0 0), Fires 0 (Draw 0 0)]
      :: (string, nat, string) input list) \<and>
   loops (exec (init :: (string, nat, string) system)
     [Submit ''a'', Submit ''b'', Settles 0 (Fulfilled 1) (Draw 0 0), Submit ''c'', Fires 0 (Draw 0 0),
       Settles 0 (Fulfilled 2) (Draw 0 0), Fires 0 (Draw 0 0), Settles 0 (Fulfilled 3) (Draw 0 0), Fires 0 (Draw 0 0)]) = [] \<and>
   resolved (trace (exec (init :: (string, nat, string) system)
     [Submit ''a'', Submit ''b'', Settles 0 (Fulfilled 1) (Draw 0 0), Submit ''c'', Fires 0 (Draw 0 0),
       Settles 0 (Fulfilled 2) (Draw 0 0), Fires 0 (Draw 0 0), Settles 0 (Fulfilled 3) (Draw 0 0), Fires 0 (Draw 0 0)])) = [0, 1, 2]"
  using fifo_resolution_order
    [where ins = "[Submit ''a'', Submit ''b'', Settles 0 (Fulfilled 1) (Draw 0 0), Submit ''c'', Fires 0 (Draw 0 0),
       Settles 0 (Fulfilled 2) (Draw 0 0), Fires 0 (Draw 0 0), Settles 0 (Fulfilled 3) (Draw 0 0), Fires 0 (Draw 0 0)]
      :: (string, nat, string) input list"]
  by (simp add: run_simps)

subsection \<open>C7: the backoff delay\<close>




subsection \<open>C8: the pacing delay\<close>




subsection \<open>C9: a failing operation does not block the queue\<close>

text \<open>
  Claim C9 says that the operations submitted after one that always fails never
  execute. On the run below two operations are submitted and the first fails. It is not
  put back: its promise is rejected, the pacing delay is waited, and the loop calls the
  second operation.
\<close>

theorem failed_head_does_not_block:
  "trace (exec (init :: (string, nat, string) system)
      [Submit ''a'', Submit ''b'', Settles 0 (Failed ''boom'') (Draw 1 1), Fires 0 (Draw 0 0)]) =
     [Call (Wrapper 0 ''a''), Reject 0 ''boom'', Pacing 2500, Call (Wrapper 1 ''b'')] \<and>
   loops (exec (init :: (string, nat, string) system)
      [Submit ''a'', Submit ''b'', Settles 0 (Failed ''boom'') (Draw 1 1), Fires 0 (Draw 0 0)]) =
     [AwaitRequest (Wrapper 1 ''b'')] \<and>
   queue (rq (exec (init :: (string, nat, string) system)
      [Submit ''a'', Submit ''b'', Settles 0 (Failed ''boom'') (Draw 1 1), Fires 0 (Draw 0 0)])) = []"
  by (simp add: run_simps)

subsection \<open>C10: restart after drain\<close>

text \<open>
  Claim C10. In a reachable state, when the pacing timer fires and the array is empty
  the loop ends: no call of \<^verbatim>\<open>processQueue\<close> is left and the flag is clear. And
  in a reachable state with an empty array and a clear flag, a call of \<^verbatim>\<open>add\<close>
  by itself starts a loop that calls the new operation before \<^verbatim>\<open>add\<close> returns.
\<close>

theorem restart_after_drain:
  assumes "s = exec init ins"
  shows "(loops s = [AwaitRandomDelay d] \<and> queue (rq s) = [] \<longrightarrow>
            loops (fires 0 rnd s) = [] \<and> \<not> processing (rq (fires 0 rnd s)) \<and>
            queue (rq (fires 0 rnd s)) = []) \<and>
         (queue (rq s) = [] \<and> \<not> processing (rq s) \<longrightarrow>
            loops (add r s) = [AwaitRequest (Wrapper (length (promises s)) r)] \<and>
            processing (rq (add r s)) \<and>
            trace (add r s) = trace s @ [Call (Wrapper (length (promises s)) r)])"
proof -
  have "shape s" using assms invar_reachable [of ins] by (simp add: invar_def)
  then show ?thesis
    by (cases rule: shape_cases) (simp_all add: fires_pacing_empty add_idle)
qed

text \<open>
  C10 on a run: one operation is submitted and succeeds, the timer fires and the loop
  ends; a second submission is called at once.
\<close>

theorem restart_after_drain_witness:
  "loops (exec (init :: (string, nat, string) system) [Submit ''a'', Settles 0 (Fulfilled 1) (Draw 0 0)]) =
     [AwaitRandomDelay 1500] \<and>
   queue (rq (exec (init :: (string, nat, string) system)
     [Submit ''a'', Settles 0 (Fulfilled 1) (Draw 0 0), Fires 0 (Draw 0 0)])) = [] \<and>
   \<not> processing (rq (exec (init :: (string, nat, string) system)
     [Submit ''a'', Settles 0 (Fulfilled 1) (Draw 0 0), Fires 0 (Draw 0 0)])) \<and>
   loops (add ''b'' (exec (init :: (string, nat, string) system)
     [Submit ''a'', Settles 0 (Fulfilled 1) (Draw 0 0), Fires 0 (Draw 0 0)])) = [AwaitRequest (Wrapper 1 ''b'')] \<and>
   trace (add ''b'' (exec (init :: (string, nat, string) system)
     [Submit ''a'', Settles 0 (Fulfilled 1) (Draw 0 0), Fires 0 (Draw 0 0)])) =
     [Call (Wrapper 0 ''a''), Resolve 0 1, Pacing 1500, Call (Wrapper 1 ''b'')]"
  using restart_after_drain
    [where s = "exec (init :: (string, nat, string) system)
        [Submit ''a'', Settles 0 (Fulfilled 1) (Draw 0 0), Fires 0 (Draw 0 0)]"
      and ins = "[Submit ''a'', Settles 0 (Fulfilled 1) (Draw 0 0), Fires 0 (Draw 0 0)]" and r = "''b''"]
    restart_after_drain
    [where s = "exec (init :: (string, nat, string) system)
        [Submit ''a'', Settles 0 (Fulfilled 1) (Draw 0 0)]"
      and ins = "[Submit ''a'', Settles 0 (Fulfilled 1) (Draw 0 0)]" and d = 1500 and rnd = "Draw 0 0"]
  by (simp add: run_simps)

end
